theory Spec2Isabelle
  imports Main "HOL-Library.AList"
begin

section \<open>log\_retainer.py: retaining the most recent log entries by level\<close>

text \<open>
  The module keeps, per logging level, the sequence numbers of the most recent
  records, and one insertion-ordered dictionary of all retained entries. Filters
  are objects handed to the handler by reference; the handler calls them and
  they keep a list of their own. The embedding follows the three classes of the
  source: every method takes the state it reads and returns the state it
  leaves, and every exception a statement can raise is a value.
\<close>

subsection \<open>Exceptions and records\<close>

text \<open>The built-in exceptions that the statements of the module can raise.\<close>

datatype error = AttributeError | ValueError | KeyError | TypeError | IndexError

text \<open>What the module reads of a \<^verbatim>\<open>logging.LogRecord\<close>: \<^verbatim>\<open>rec.name\<close> and \<^verbatim>\<open>rec.levelno\<close>.\<close>

record log_record =
  r_name :: string
  r_levelno :: int

subsection \<open>Filters\<close>

text \<open>
  \<^verbatim>\<open>LogRetainSuppress\<close> inherits the constructor of \<^verbatim>\<open>LogRetainFilter\<close> and overrides
  \<^verbatim>\<open>filter\<close>; an object is its class and the four fields of the constructor.
\<close>

datatype filter_class = LogRetainFilter | LogRetainSuppress

record filter_obj =
  f_class :: filter_class
  f_name :: string
  f_level :: int
  f_count :: int
  f_index :: "int list"

definition LogRetainFilter_init :: "filter_class \<Rightarrow> string \<Rightarrow> int \<Rightarrow> int \<Rightarrow> filter_obj" where
  "LogRetainFilter_init c n l k =
     \<lparr>f_class = c, f_name = n, f_level = l, f_count = k, f_index = []\<rparr>"

text \<open>The test \<^verbatim>\<open>rec.name == self.name and rec.levelno == self.level\<close> of both methods.\<close>

definition matches :: "filter_obj \<Rightarrow> log_record \<Rightarrow> bool" where
  "matches f r \<longleftrightarrow> r_name r = f_name f \<and> r_levelno r = f_level f"

text \<open>
  \<^verbatim>\<open>LogRetainFilter.filter\<close>. \<^verbatim>\<open>self._index.pop(0)\<close> raises \<^verbatim>\<open>IndexError\<close> on an
  empty list, which the test \<^verbatim>\<open>len(self._index) >= self.count\<close> lets through when
  \<^verbatim>\<open>count\<close> is not positive; the append is not reached then.
\<close>

definition LogRetainFilter_filter ::
  "filter_obj \<Rightarrow> int \<Rightarrow> log_record \<Rightarrow> (error + int option) \<times> filter_obj" where
  "LogRetainFilter_filter f logSeq r =
     (if matches f r then
        (if f_count f \<le> int (length (f_index f)) then
           (case f_index f of
              [] \<Rightarrow> (Inl IndexError, f)
            | rm # rest \<Rightarrow> (Inr (Some rm), f\<lparr>f_index := rest @ [logSeq]\<rparr>))
         else (Inr None, f\<lparr>f_index := f_index f @ [logSeq]\<rparr>))
      else (Inr None, f))"

text \<open>\<^verbatim>\<open>LogRetainSuppress.filter\<close>: the record's own number on a match, else the implicit \<^verbatim>\<open>None\<close>.\<close>

definition LogRetainSuppress_filter ::
  "filter_obj \<Rightarrow> int \<Rightarrow> log_record \<Rightarrow> (error + int option) \<times> filter_obj" where
  "LogRetainSuppress_filter f logSeq r =
     (if matches f r then (Inr (Some logSeq), f) else (Inr None, f))"

text \<open>The method call \<^verbatim>\<open>filter.filter(logSeq, record)\<close>, dispatched on the class of the object.\<close>

definition call_filter ::
  "filter_obj \<Rightarrow> int \<Rightarrow> log_record \<Rightarrow> (error + int option) \<times> filter_obj" where
  "call_filter f logSeq r =
     (case f_class f of
        LogRetainFilter \<Rightarrow> LogRetainFilter_filter f logSeq r
      | LogRetainSuppress \<Rightarrow> LogRetainSuppress_filter f logSeq r)"

subsection \<open>The handler\<close>

text \<open>
  \<^verbatim>\<open>_index\<close> is an \<^verbatim>\<open>OrderedDict\<close>: an association list in insertion order, where
  assignment to a present key keeps its place and assignment to a new key
  appends (\<^const>\<open>AList.update\<close>). \<^verbatim>\<open>_filters\<close> holds references: the objects
  live in a store, which the handler shares with whoever registered them.
\<close>

type_synonym ref = nat
type_synonym store = "ref \<Rightarrow> filter_obj"

record handler =
  retainSetup :: "int \<rightharpoonup> int"
  level :: int
  logSeq :: int
  index :: "(int \<times> string) list"
  retain :: "int \<rightharpoonup> int list"
  filters :: "ref list"

text \<open>\<^verbatim>\<open>LogRetainHandler.__init__\<close>: one empty list for each key of \<^verbatim>\<open>retain\<close>.\<close>

definition init :: "(int \<rightharpoonup> int) \<Rightarrow> int \<Rightarrow> handler" where
  "init rs lv =
     \<lparr>retainSetup = rs, level = lv, logSeq = 0, index = [],
      retain = (\<lambda>k. map_option (\<lambda>_. []) (rs k)), filters = []\<rparr>"

text \<open>
  The outcome of the constructor call. The body has no \<^verbatim>\<open>raise\<close> and tests
  neither the capacities nor the level, so no branch yields an error.
\<close>

definition construct :: "(int \<rightharpoonup> int) \<Rightarrow> int \<Rightarrow> error + handler" where
  "construct rs lv = Inr (init rs lv)"

definition addFilter :: "handler \<Rightarrow> ref \<Rightarrow> handler" where
  "addFilter h a = h\<lparr>filters := filters h @ [a]\<rparr>"

text \<open>Python's truth value of what a filter returned: \<^verbatim>\<open>None\<close> and \<^verbatim>\<open>0\<close> are false.\<close>

fun truthy :: "int option \<Rightarrow> bool" where
  "truthy None = False"
| "truthy (Some v) = (v \<noteq> 0)"

definition keys :: "(int \<times> string) list \<Rightarrow> int list" where
  "keys ix = map fst ix"

text \<open>
  The \<^verbatim>\<open>for filter in self._filters\<close> loop of \<^verbatim>\<open>emit\<close>. It leaves in one of three
  ways: the \<^verbatim>\<open>return\<close> on the record's own number, an exception, or the end of the
  list. \<^verbatim>\<open>lvlRecs\<close> is \<^verbatim>\<open>None\<close> for a level that is no key of \<^verbatim>\<open>_retain\<close>, and then
  \<^verbatim>\<open>lvlRecs.pop\<close> raises \<^verbatim>\<open>AttributeError\<close>; \<^verbatim>\<open>lvlRecs.index\<close> raises \<^verbatim>\<open>ValueError\<close>
  for a value that is not in the list, and \<^verbatim>\<open>try ... finally: pass\<close> catches
  nothing; \<^verbatim>\<open>self._index.pop\<close> raises \<^verbatim>\<open>KeyError\<close> for an absent key.
\<close>

datatype loop_exit = Completed | Leave | Raise error

fun process_filters ::
  "int \<Rightarrow> log_record \<Rightarrow> ref list \<Rightarrow> store \<Rightarrow> int list option \<Rightarrow> (int \<times> string) list
     \<Rightarrow> loop_exit \<times> store \<times> int list option \<times> (int \<times> string) list" where
  "process_filters seq r [] st lvlRecs ix = (Completed, st, lvlRecs, ix)"
| "process_filters seq r (a # as) st lvlRecs ix =
     (case call_filter (st a) seq r of
        (Inl e, f') \<Rightarrow> (Raise e, st(a := f'), lvlRecs, ix)
      | (Inr toRemove, f') \<Rightarrow>
          (if truthy toRemove then
             (if the toRemove = seq then (Leave, st(a := f'), lvlRecs, ix)
              else
                (case lvlRecs of
                   None \<Rightarrow> (Raise AttributeError, st(a := f'), lvlRecs, ix)
                 | Some q \<Rightarrow>
                     (if the toRemove \<in> set q then
                        (if the toRemove \<in> set (keys ix) then
                           process_filters seq r as (st(a := f'))
                             (Some (remove1 (the toRemove) q)) (AList.delete (the toRemove) ix)
                         else (Raise KeyError, st(a := f'), Some (remove1 (the toRemove) q), ix))
                      else (Raise ValueError, st(a := f'), lvlRecs, ix))))
           else process_filters seq r as (st(a := f')) lvlRecs ix))"

text \<open>
  The statements of \<^verbatim>\<open>emit\<close> after the loop. \<^verbatim>\<open>len(lvlRecs)\<close> raises \<^verbatim>\<open>TypeError\<close>
  when \<^verbatim>\<open>lvlRecs\<close> is \<^verbatim>\<open>None\<close>, and so does the comparison with a missing capacity;
  \<^verbatim>\<open>lvlRecs.pop(0)\<close> raises \<^verbatim>\<open>IndexError\<close> on an empty list. The index entry is
  written before any of them.
\<close>

definition store_entry ::
  "(log_record \<Rightarrow> string) \<Rightarrow> handler \<Rightarrow> log_record \<Rightarrow> int list option \<Rightarrow> (int \<times> string) list
     \<Rightarrow> error option \<times> handler" where
  "store_entry fmt h r lvlRecs ix =
     (let ix1 = AList.update (logSeq h) (fmt r) ix in
      case lvlRecs of
        None \<Rightarrow> (Some TypeError, h\<lparr>index := ix1\<rparr>)
      | Some q \<Rightarrow>
          (case retainSetup h (r_levelno r) of
             None \<Rightarrow> (Some TypeError, h\<lparr>index := ix1, retain := (retain h)(r_levelno r \<mapsto> q)\<rparr>)
           | Some cap \<Rightarrow>
               (if cap \<le> int (length q) then
                  (case q of
                     [] \<Rightarrow> (Some IndexError, h\<lparr>index := ix1, retain := (retain h)(r_levelno r \<mapsto> q)\<rparr>)
                   | rm # rest \<Rightarrow>
                       (if rm \<in> set (keys ix1) then
                          (None, h\<lparr>index := AList.delete rm ix1,
                                   retain := (retain h)(r_levelno r \<mapsto> rest @ [logSeq h])\<rparr>)
                        else (Some KeyError,
                              h\<lparr>index := ix1, retain := (retain h)(r_levelno r \<mapsto> rest)\<rparr>)))
                else (None, h\<lparr>index := ix1,
                               retain := (retain h)(r_levelno r \<mapsto> q @ [logSeq h])\<rparr>))))"

text \<open>
  The lists of \<^verbatim>\<open>_retain\<close> are changed in place, so what the loop did to
  \<^verbatim>\<open>lvlRecs\<close> is in the handler however the call ends.
\<close>

definition write_back :: "handler \<Rightarrow> log_record \<Rightarrow> int list option \<Rightarrow> (int \<times> string) list \<Rightarrow> handler" where
  "write_back h r lvlRecs ix =
     (case lvlRecs of
        None \<Rightarrow> h\<lparr>index := ix\<rparr>
      | Some q \<Rightarrow> h\<lparr>index := ix, retain := (retain h)(r_levelno r \<mapsto> q)\<rparr>)"

text \<open>
  \<^verbatim>\<open>LogRetainHandler.emit\<close>. The first component is the exception the call ends
  with, if any; the state is the one the call leaves behind, also when it raises.
  \<^verbatim>\<open>fmt\<close> stands for \<^verbatim>\<open>self.format\<close> of \<^verbatim>\<open>logging.Handler\<close>.
\<close>

definition emit ::
  "(log_record \<Rightarrow> string) \<Rightarrow> store \<times> handler \<Rightarrow> log_record \<Rightarrow> error option \<times> store \<times> handler" where
  "emit fmt s r =
     (let st = fst s; h = snd s in
      if level h \<le> r_levelno r then
        (let h1 = h\<lparr>logSeq := logSeq h + 1\<rparr> in
         case process_filters (logSeq h1) r (filters h1) st (retain h1 (r_levelno r)) (index h1) of
           (Leave, st', lvlRecs, ix) \<Rightarrow> (None, st', write_back h1 r lvlRecs ix)
         | (Raise e, st', lvlRecs, ix) \<Rightarrow> (Some e, st', write_back h1 r lvlRecs ix)
         | (Completed, st', lvlRecs, ix) \<Rightarrow>
             (case store_entry fmt h1 r lvlRecs ix of (e, h2) \<Rightarrow> (e, st', h2)))
      else (None, st, h))"

text \<open>\<^verbatim>\<open>getLogEntries\<close> yields the items of \<^verbatim>\<open>_index\<close> in its order.\<close>

definition getLogEntries :: "handler \<Rightarrow> (int \<times> string) list" where
  "getLogEntries h = index h"

text \<open>Python's \<^verbatim>\<open>str\<close> of an integer, for the f-strings of \<^verbatim>\<open>get\<close>.\<close>

fun digits :: "nat \<Rightarrow> string" where
  "digits n = (if n < 10 then [char_of (48 + n)] else digits (n div 10) @ [char_of (48 + n mod 10)])"

definition str_int :: "int \<Rightarrow> string" where
  "str_int i = (if i < 0 then CHR ''-'' # digits (nat (- i)) else digits (nat i))"

text \<open>
  \<^verbatim>\<open>get\<close>: the retained entries, newest first, then one summary line.
  \<^verbatim>\<open>gc.mem_alloc()\<close> and \<^verbatim>\<open>gc.mem_free()\<close> belong to the runtime and are parameters.
\<close>

definition get :: "int \<Rightarrow> int \<Rightarrow> handler \<Rightarrow> string list" where
  "get mem_alloc mem_free h =
     map (\<lambda>idx. str_int idx @ ''> '' @ the (map_of (index h) idx) @ [CHR 0x0A]) (rev (keys (index h)))
     @ [str_int (int (length (index h))) @ '' log items retained. Memory: '' @ str_int mem_alloc
        @ '' alloc, '' @ str_int mem_free @ '' free.'']"

text \<open>
  A run of the handler: records emitted and filters registered, one after the
  other. A call of \<^verbatim>\<open>emit\<close> that raised has left its state behind, and the next
  call starts from it.
\<close>

datatype call = Emit log_record | AddFilter ref

fun step :: "(log_record \<Rightarrow> string) \<Rightarrow> store \<times> handler \<Rightarrow> call \<Rightarrow> store \<times> handler" where
  "step fmt s (Emit r) = snd (emit fmt s r)"
| "step fmt s (AddFilter a) = (fst s, addFilter (snd s) a)"

definition run :: "(log_record \<Rightarrow> string) \<Rightarrow> store \<times> handler \<Rightarrow> call list \<Rightarrow> store \<times> handler" where
  "run fmt s cs = foldl (step fmt) s cs"


text \<open>What each call of a run ended with: the exception of an \<^verbatim>\<open>emit\<close>, or nothing.\<close>

fun trace :: "(log_record \<Rightarrow> string) \<Rightarrow> store \<times> handler \<Rightarrow> call list \<Rightarrow> error option list" where
  "trace fmt s [] = []"
| "trace fmt s (Emit r # cs) = fst (emit fmt s r) # trace fmt (step fmt s (Emit r)) cs"
| "trace fmt s (AddFilter a # cs) = None # trace fmt (step fmt s (AddFilter a)) cs"

subsection \<open>Properties of handler states\<close>

text \<open>
  The numbers in the index and in the queues are numbers the counter has
  already given out.
\<close>

definition seq_bounded :: "handler \<Rightarrow> bool" where
  "seq_bounded h \<longleftrightarrow>
     0 \<le> logSeq h
     \<and> (\<forall>k \<in> set (keys (index h)). k \<le> logSeq h)
     \<and> (\<forall>l q. retain h l = Some q \<longrightarrow> (\<forall>k \<in> set q. k \<le> logSeq h))"

text \<open>A number that is neither a key of the index nor in any queue.\<close>

definition absent :: "int \<Rightarrow> handler \<Rightarrow> bool" where
  "absent k h \<longleftrightarrow> k \<notin> set (keys (index h)) \<and> (\<forall>l q. retain h l = Some q \<longrightarrow> k \<notin> set q)"




text \<open>Every level with a capacity has a queue, no longer than a capacity that is not negative.\<close>

definition within_capacity :: "handler \<Rightarrow> bool" where
  "within_capacity h \<longleftrightarrow>
     (\<forall>l c. retainSetup h l = Some c \<longrightarrow>
        (\<exists>q. retain h l = Some q \<and> (0 \<le> c \<longrightarrow> int (length q) \<le> c)))"


subsection \<open>Sample objects\<close>

text \<open>
  A store for the examples: reference 0 is a retaining filter for the records
  of \<^verbatim>\<open>X\<close> at level 20 that keeps one entry, reference 1 a suppressing filter
  for the records of \<^verbatim>\<open>Y\<close> at level 30, reference 2 a retaining filter for
  \<^verbatim>\<open>X\<close> at level 20 that keeps two, and every other reference a suppressing
  filter for \<^verbatim>\<open>X\<close> at level 20.
\<close>

definition sample_store :: store where
  "sample_store = (\<lambda>a.
     if a = 0 then LogRetainFilter_init LogRetainFilter ''X'' 20 1
     else if a = 1 then LogRetainFilter_init LogRetainSuppress ''Y'' 30 10
     else if a = 2 then LogRetainFilter_init LogRetainFilter ''X'' 20 2
     else LogRetainFilter_init LogRetainSuppress ''X'' 20 10)"

definition rec_X :: log_record where
  "rec_X = \<lparr>r_name = ''X'', r_levelno = 20\<rparr>"

definition rec_Y :: log_record where
  "rec_Y = \<lparr>r_name = ''Y'', r_levelno = 30\<rparr>"

section \<open>Auxiliary facts\<close>

subsection \<open>Calls of one filter\<close>

lemma call_filter_no_match:
  "\<not> matches f r \<Longrightarrow> call_filter f seq r = (Inr None, f)"
  by (simp add: call_filter_def LogRetainFilter_filter_def LogRetainSuppress_filter_def
      split: filter_class.splits)

lemma call_filter_suppress:
  "f_class f = LogRetainSuppress \<Longrightarrow> matches f r \<Longrightarrow> call_filter f seq r = (Inr (Some seq), f)"
  by (simp add: call_filter_def LogRetainSuppress_filter_def)

lemma call_filter_static:
  assumes "call_filter f seq r = (res, f')"
  shows "f_class f' = f_class f \<and> f_name f' = f_name f \<and> f_level f' = f_level f
         \<and> f_count f' = f_count f"
  using assms
  by (auto simp: call_filter_def LogRetainFilter_filter_def LogRetainSuppress_filter_def
      split: filter_class.splits if_splits list.splits)

lemma call_filter_matches:
  "call_filter f seq r = (res, f') \<Longrightarrow> matches f' r = matches f r"
  using call_filter_static [of f seq r res f'] by (simp add: matches_def)

lemma call_filter_keeps:
  assumes "call_filter f seq r = (res, f')" and "seq \<in> set (f_index f)"
  shows "seq \<in> set (f_index f')"
  using assms
  by (auto simp: call_filter_def LogRetainFilter_filter_def LogRetainSuppress_filter_def
      split: filter_class.splits if_splits list.splits)

lemma call_filter_adds:
  assumes "call_filter f seq r = (Inr res, f')" and "f_class f = LogRetainFilter" and "matches f r"
  shows "seq \<in> set (f_index f')"
  using assms
  by (auto simp: call_filter_def LogRetainFilter_filter_def split: if_splits list.splits)

lemma keys_delete: "keys (AList.delete t ix) = removeAll t (keys ix)"
  by (simp add: keys_def delete_keys)

subsection \<open>The loop over the filters\<close>

lemma process_filters_Cons:
  "process_filters seq r (a # as) st lv ix =
     (case call_filter (st a) seq r of
        (Inl e, f') \<Rightarrow> (Raise e, st(a := f'), lv, ix)
      | (Inr None, f') \<Rightarrow> process_filters seq r as (st(a := f')) lv ix
      | (Inr (Some t), f') \<Rightarrow>
          (if t = 0 then process_filters seq r as (st(a := f')) lv ix
           else if t = seq then (Leave, st(a := f'), lv, ix)
           else
             (case lv of
                None \<Rightarrow> (Raise AttributeError, st(a := f'), lv, ix)
              | Some q \<Rightarrow>
                  (if t \<notin> set q then (Raise ValueError, st(a := f'), lv, ix)
                   else if t \<notin> set (keys ix) then (Raise KeyError, st(a := f'), Some (remove1 t q), ix)
                   else process_filters seq r as (st(a := f')) (Some (remove1 t q)) (AList.delete t ix)))))"
  by (auto split: prod.splits sum.splits option.splits)

declare process_filters.simps(2) [simp del]

lemma process_filters_append:
  "process_filters seq r (pre @ post) st lv ix =
     (case process_filters seq r pre st lv ix of
        (Completed, st1, lv1, ix1) \<Rightarrow> process_filters seq r post st1 lv1 ix1
      | (Leave, res) \<Rightarrow> (Leave, res)
      | (Raise e, res) \<Rightarrow> (Raise e, res))"
  by (induction pre arbitrary: st lv ix)
     (auto simp: process_filters_Cons split: prod.splits sum.splits option.splits loop_exit.splits)

lemma process_filters_no_match:
  "\<forall>b \<in> set fs. \<not> matches (st b) r \<Longrightarrow> process_filters seq r fs st lv ix = (Completed, st, lv, ix)"
  by (induction fs) (auto simp: process_filters_Cons call_filter_no_match)

lemma process_filters_ConsE:
  assumes "process_filters seq r (a # as) st lv ix = (ex, st', lv', ix')"
  obtains
    (stop) "st' = st(a := snd (call_filter (st a) seq r))" "lv' = lv" "ix' = ix" "ex \<noteq> Completed"
  | (key) t q where "lv = Some q" "t \<in> set q" "t \<notin> set (keys ix)"
      "lv' = Some (remove1 t q)" "ix' = ix" "ex = Raise KeyError"
      "st' = st(a := snd (call_filter (st a) seq r))"
  | (skip) "process_filters seq r as (st(a := snd (call_filter (st a) seq r))) lv ix
             = (ex, st', lv', ix')" "\<not> isl (fst (call_filter (st a) seq r))"
  | (drop) t q where "lv = Some q" "t \<in> set q" "t \<in> set (keys ix)" "t \<noteq> seq"
      "process_filters seq r as (st(a := snd (call_filter (st a) seq r)))
         (Some (remove1 t q)) (AList.delete t ix) = (ex, st', lv', ix')"
      "\<not> isl (fst (call_filter (st a) seq r))"
proof -
  obtain res f' where cf: "call_filter (st a) seq r = (res, f')"
    by (cases "call_filter (st a) seq r")
  have "(st' = st(a := f') \<and> lv' = lv \<and> ix' = ix \<and> ex \<noteq> Completed)
      \<or> (\<exists>t q. lv = Some q \<and> t \<in> set q \<and> t \<notin> set (keys ix) \<and> lv' = Some (remove1 t q)
            \<and> ix' = ix \<and> ex = Raise KeyError \<and> st' = st(a := f'))
      \<or> (process_filters seq r as (st(a := f')) lv ix = (ex, st', lv', ix') \<and> \<not> isl res)
      \<or> (\<exists>t q. lv = Some q \<and> t \<in> set q \<and> t \<in> set (keys ix) \<and> t \<noteq> seq \<and> \<not> isl res \<and>
            process_filters seq r as (st(a := f')) (Some (remove1 t q)) (AList.delete t ix)
              = (ex, st', lv', ix'))"
  proof (cases res)
    case (Inl e)
    then show ?thesis using assms cf by (auto simp: process_filters_Cons)
  next
    case (Inr v)
    show ?thesis
    proof (cases v)
      case None
      then show ?thesis using Inr assms cf by (simp add: process_filters_Cons)
    next
      case (Some t)
      show ?thesis
      proof (cases lv)
        case None
        then show ?thesis using Some Inr assms cf
          by (auto simp: process_filters_Cons split: if_splits)
      next
        case (Some q)
        then show ?thesis using \<open>v = Some t\<close> Inr assms cf
          by (simp add: process_filters_Cons split: if_splits) blast+
      qed
    qed
  qed
  then show thesis using cf stop key skip drop by auto
qed

lemma process_filters_shrinks:
  assumes "process_filters seq r fs st lv ix = (ex, st', lv', ix')"
  shows "set (keys ix') \<subseteq> set (keys ix)
         \<and> (case lv of None \<Rightarrow> lv' = None
             | Some q \<Rightarrow> (\<exists>q'. lv' = Some q' \<and> set q' \<subseteq> set q \<and> length q' \<le> length q))"
  using assms
proof (induction fs arbitrary: st lv ix)
  case Nil
  then show ?case by (auto split: option.splits)
next
  case (Cons a as)
  have sub: "set (keys (AList.delete t ix)) \<subseteq> set (keys ix)" for t
    by (simp add: keys_delete)
  have rem: "set (remove1 t q) \<subseteq> set q" "length (remove1 t q) \<le> length q" for t and q :: "int list"
    by (simp_all add: length_remove1 set_remove1_subset)
  from Cons.prems show ?case
  proof (cases rule: process_filters_ConsE)
    case stop
    then show ?thesis by (auto split: option.splits)
  next
    case key
    then show ?thesis using rem by auto
  next
    case skip
    from Cons.IH [OF skip(1)] show ?thesis .
  next
    case (drop t q)
    from Cons.IH [OF drop(5)] obtain q' where
      "set (keys ix') \<subseteq> set (keys (AList.delete t ix))" "lv' = Some q'"
      "set q' \<subseteq> set (remove1 t q)" "length q' \<le> length (remove1 t q)"
      by auto
    then show ?thesis using drop(1) sub [of t] rem [of t q] by auto
  qed
qed

text \<open>The objects keep their class and key through the loop, and a number the loop has put in a list stays there.\<close>

lemma process_filters_store:
  assumes "process_filters seq r fs st lv ix = (ex, st', lv', ix')"
  shows "(\<forall>b. f_class (st' b) = f_class (st b) \<and> matches (st' b) r = matches (st b) r)
       \<and> (\<forall>b. seq \<in> set (f_index (st b)) \<longrightarrow> seq \<in> set (f_index (st' b)))"
  using assms
proof (induction fs arbitrary: st lv ix)
  case Nil
  then show ?case by simp
next
  case (Cons a as)
  obtain res f' where cf: "call_filter (st a) seq r = (res, f')"
    by (cases "call_filter (st a) seq r")
  have one: "(\<forall>b. f_class ((st(a := f')) b) = f_class (st b)
                 \<and> matches ((st(a := f')) b) r = matches (st b) r)
       \<and> (\<forall>b. seq \<in> set (f_index (st b)) \<longrightarrow> seq \<in> set (f_index ((st(a := f')) b)))"
    using call_filter_static [OF cf] call_filter_matches [OF cf] call_filter_keeps [OF cf]
    by simp
  from Cons.prems show ?case
  proof (cases rule: process_filters_ConsE)
    case stop
    then show ?thesis using one cf by simp
  next
    case key
    then show ?thesis using one cf by simp
  next
    case skip
    from Cons.IH [OF skip(1)] one cf show ?thesis by simp
  next
    case (drop t q)
    from Cons.IH [OF drop(5)] one cf show ?thesis by simp
  qed
qed


lemma process_filters_adds:
  assumes "process_filters seq r fs st lv ix = (Completed, st', lv', ix')"
    and "b \<in> set fs" and "f_class (st b) = LogRetainFilter" and "matches (st b) r"
  shows "seq \<in> set (f_index (st' b))"
  using assms
proof (induction fs arbitrary: st lv ix)
  case Nil
  then show ?case by simp
next
  case (Cons a as)
  obtain res f' where cf: "call_filter (st a) seq r = (res, f')"
    by (cases "call_filter (st a) seq r")
  have same: "f_class ((st(a := f')) b) = LogRetainFilter" "matches ((st(a := f')) b) r"
    using call_filter_static [OF cf] call_filter_matches [OF cf] Cons.prems(3,4) by auto
  have rest: "seq \<in> set (f_index (st' b))"
    if run: "process_filters seq r as (st(a := f')) lv1 ix1 = (Completed, st', lv', ix')"
      and ok: "\<not> isl res" for lv1 ix1
  proof (cases "b = a")
    case True
    from ok obtain v where "res = Inr v" by (cases res) auto
    with cf True Cons.prems(3,4) have "seq \<in> set (f_index f')"
      using call_filter_adds by blast
    with True have "seq \<in> set (f_index ((st(a := f')) b))" by simp
    with process_filters_store [OF run] show ?thesis by blast
  next
    case False
    with Cons.prems(2) have "b \<in> set as" by simp
    from Cons.IH [OF run this same] show ?thesis .
  qed
  from Cons.prems(1) show ?case
  proof (cases rule: process_filters_ConsE)
    case stop
    then show ?thesis by simp
  next
    case key
    then show ?thesis by simp
  next
    case skip
    with cf rest show ?thesis by simp
  next
    case (drop t q)
    with cf rest show ?thesis by simp
  qed
qed

lemma process_filters_Leave:
  assumes "process_filters seq r fs st lv ix = (Leave, st', lv', ix')"
  shows "\<exists>pre a post st1. fs = pre @ a # post
           \<and> process_filters seq r pre st lv ix = (Completed, st1, lv', ix')
           \<and> call_filter (st1 a) seq r = (Inr (Some seq), st' a)
           \<and> st' = st1(a := st' a) \<and> seq \<noteq> 0"
  using assms
proof (induction fs arbitrary: st lv ix)
  case Nil
  then show ?case by simp
next
  case (Cons a as)
  obtain res f' where cf: "call_filter (st a) seq r = (res, f')"
    by (cases "call_filter (st a) seq r")
  show ?case
  proof (cases "res = Inr (Some seq) \<and> seq \<noteq> 0")
    case True
    with Cons.prems cf have "st' = st(a := f')" "lv' = lv" "ix' = ix"
      by (simp_all add: process_filters_Cons)
    with True cf have "a # as = [] @ a # as
           \<and> process_filters seq r [] st lv ix = (Completed, st, lv', ix')
           \<and> call_filter (st a) seq r = (Inr (Some seq), st' a)
           \<and> st' = st(a := st' a) \<and> seq \<noteq> 0"
      by simp
    then show ?thesis by blast
  next
    case False
    with Cons.prems cf obtain lv1 ix1 where
      run: "process_filters seq r as (st(a := f')) lv1 ix1 = (Leave, st', lv', ix')"
      and head: "process_filters seq r [a] st lv ix = (Completed, st(a := f'), lv1, ix1)"
      by (cases res; cases lv)
         (auto simp: process_filters_Cons split: option.splits if_splits)
    from Cons.IH [OF run] obtain pre b post st1 where
      d: "as = pre @ b # post"
        "process_filters seq r pre (st(a := f')) lv1 ix1 = (Completed, st1, lv', ix')"
        "call_filter (st1 b) seq r = (Inr (Some seq), st' b)"
        "st' = st1(b := st' b)" "seq \<noteq> 0"
      by blast
    have "process_filters seq r (a # pre) st lv ix = (Completed, st1, lv', ix')"
      using process_filters_append [of seq r "[a]" pre st lv ix] head d(2) by simp
    with d have "a # as = (a # pre) @ b # post
           \<and> process_filters seq r (a # pre) st lv ix = (Completed, st1, lv', ix')
           \<and> call_filter (st1 b) seq r = (Inr (Some seq), st' b)
           \<and> st' = st1(b := st' b) \<and> seq \<noteq> 0"
      by simp
    then show ?thesis by blast
  qed
qed


subsection \<open>One call of emit\<close>

lemma keys_update: "set (keys (AList.update k v ix)) = insert k (set (keys ix))"
  using dom_update [of k v ix] by (simp add: keys_def)

lemma set_keys_delete: "set (keys (AList.delete t ix)) = set (keys ix) - {t}"
  by (simp add: keys_delete)

lemma write_back_fields:
  "retainSetup (write_back h r lv ix) = retainSetup h \<and> level (write_back h r lv ix) = level h
   \<and> filters (write_back h r lv ix) = filters h \<and> logSeq (write_back h r lv ix) = logSeq h
   \<and> index (write_back h r lv ix) = ix
   \<and> retain (write_back h r lv ix)
       = (case lv of None \<Rightarrow> retain h | Some q \<Rightarrow> (retain h)(r_levelno r \<mapsto> q))"
  by (simp add: write_back_def split: option.splits)

lemma store_entry_fields:
  assumes "store_entry fmt h r lv ix = (e, h')"
  shows "retainSetup h' = retainSetup h \<and> level h' = level h \<and> filters h' = filters h
       \<and> logSeq h' = logSeq h
       \<and> set (keys (index h')) \<subseteq> insert (logSeq h) (set (keys ix))
       \<and> (case lv of None \<Rightarrow> retain h' = retain h
           | Some q \<Rightarrow> (\<exists>q'. retain h' = (retain h)(r_levelno r \<mapsto> q')
                          \<and> set q' \<subseteq> insert (logSeq h) (set q)))"
proof (cases lv)
  case None
  with assms show ?thesis by (auto simp: store_entry_def Let_def keys_update)
next
  case (Some q)
  from Some assms show ?thesis
    by (cases q; cases "retainSetup h (r_levelno r)")
       (auto simp: store_entry_def Let_def keys_update set_keys_delete split: if_splits)
qed

lemma emit_frame:
  assumes "emit fmt (st, h) r = (e, st', h')"
  shows "retainSetup h' = retainSetup h \<and> level h' = level h \<and> filters h' = filters h
       \<and> (h' = h \<or> logSeq h' = logSeq h + 1)
       \<and> set (keys (index h')) \<subseteq> insert (logSeq h + 1) (set (keys (index h)))
       \<and> (\<forall>l. case retain h l of None \<Rightarrow> retain h' l = None
            | Some q \<Rightarrow> (\<exists>q'. retain h' l = Some q' \<and> set q' \<subseteq> insert (logSeq h + 1) (set q)))"
proof (cases "level h \<le> r_levelno r")
  case False
  with assms have "h' = h" by (simp add: emit_def Let_def)
  then show ?thesis by (auto split: option.splits)
next
  case True
  define h1 where "h1 = h\<lparr>logSeq := logSeq h + 1\<rparr>"
  obtain ex st1 lv1 ix1 where
    pf: "process_filters (logSeq h + 1) r (filters h) st (retain h (r_levelno r)) (index h)
          = (ex, st1, lv1, ix1)"
    by (metis prod_cases4)
  note sh = process_filters_shrinks [OF pf]
  show ?thesis
  proof (cases "ex = Completed")
    case False
    with assms True pf have h': "h' = write_back h1 r lv1 ix1"
      by (cases ex) (auto simp: emit_def Let_def h1_def)
    show ?thesis using sh write_back_fields [of h1 r lv1 ix1]
      unfolding h' by (auto simp: h1_def split: option.splits)
  next
    case ec: True
    with assms True pf have se: "store_entry fmt h1 r lv1 ix1 = (e, h')"
      by (auto simp: emit_def Let_def h1_def split: prod.splits)
    show ?thesis using sh store_entry_fields [OF se]
      by (auto simp: h1_def split: option.splits) blast+
  qed
qed


subsection \<open>Runs\<close>

lemma step_bounds:
  assumes "step fmt (st, h) c = (st', h')"
  shows "logSeq h \<le> logSeq h'
       \<and> (\<forall>k \<in> set (keys (index h')). k \<in> set (keys (index h)) \<or> (k = logSeq h + 1 \<and> k = logSeq h'))
       \<and> (\<forall>l q'. retain h' l = Some q' \<longrightarrow>
            (\<exists>q. retain h l = Some q \<and> (\<forall>k \<in> set q'. k \<in> set q \<or> (k = logSeq h + 1 \<and> k = logSeq h'))))"
proof (cases c)
  case (AddFilter a)
  with assms show ?thesis by (auto simp: addFilter_def)
next
  case (Emit r)
  with assms obtain e where em: "emit fmt (st, h) r = (e, st', h')"
    by (cases "emit fmt (st, h) r") auto
  from emit_frame [OF em] have
    l: "h' = h \<or> logSeq h' = logSeq h + 1"
    and k: "set (keys (index h')) \<subseteq> insert (logSeq h + 1) (set (keys (index h)))"
    and q: "\<forall>l. case retain h l of None \<Rightarrow> retain h' l = None
            | Some q \<Rightarrow> (\<exists>q'. retain h' l = Some q' \<and> set q' \<subseteq> insert (logSeq h + 1) (set q))"
    by blast+
  show ?thesis
  proof (intro conjI ballI allI impI)
    show "logSeq h \<le> logSeq h'" using l by auto
  next
    fix k assume "k \<in> set (keys (index h'))"
    then show "k \<in> set (keys (index h)) \<or> (k = logSeq h + 1 \<and> k = logSeq h')"
      using l k by auto
  next
    fix l q' assume a: "retain h' l = Some q'"
    with q [rule_format, of l] obtain q0 where
      q0: "retain h l = Some q0" "set q' \<subseteq> insert (logSeq h + 1) (set q0)"
      by (cases "retain h l") auto
    have "\<forall>k \<in> set q'. k \<in> set q0 \<or> (k = logSeq h + 1 \<and> k = logSeq h')"
    proof
      fix k assume "k \<in> set q'"
      show "k \<in> set q0 \<or> (k = logSeq h + 1 \<and> k = logSeq h')"
      proof (cases "h' = h")
        case True
        with a q0(1) \<open>k \<in> set q'\<close> show ?thesis by simp
      next
        case False
        with l q0(2) \<open>k \<in> set q'\<close> show ?thesis by auto
      qed
    qed
    with q0(1) show "\<exists>q. retain h l = Some q
        \<and> (\<forall>k \<in> set q'. k \<in> set q \<or> (k = logSeq h + 1 \<and> k = logSeq h'))"
      by blast
  qed
qed

lemma seq_bounded_init: "seq_bounded (init rs lv)"
  by (auto simp: seq_bounded_def init_def keys_def)

lemma seq_bounded_step:
  assumes "seq_bounded (snd s)"
  shows "seq_bounded (snd (step fmt s c))"
proof -
  obtain st h where s: "s = (st, h)" by (cases s)
  obtain st' h' where s': "step fmt (st, h) c = (st', h')" by (cases "step fmt (st, h) c")
  from assms s have b: "0 \<le> logSeq h" "\<And>k. k \<in> set (keys (index h)) \<Longrightarrow> k \<le> logSeq h"
    "\<And>l q k. retain h l = Some q \<Longrightarrow> k \<in> set q \<Longrightarrow> k \<le> logSeq h"
    by (auto simp: seq_bounded_def)
  from step_bounds [OF s'] have
    m: "logSeq h \<le> logSeq h'"
    and k: "\<And>k. k \<in> set (keys (index h')) \<Longrightarrow> k \<in> set (keys (index h)) \<or> k = logSeq h'"
    and q: "\<And>l q'. retain h' l = Some q' \<Longrightarrow>
            \<exists>q. retain h l = Some q \<and> (\<forall>k \<in> set q'. k \<in> set q \<or> k = logSeq h')"
    by blast+
  have "0 \<le> logSeq h'" using b(1) m by simp
  moreover have "k \<le> logSeq h'" if "k \<in> set (keys (index h'))" for k
    using k [OF that] b(2) [of k] m by auto
  moreover have "k \<le> logSeq h'" if r: "retain h' l = Some q'" and e: "k \<in> set q'" for l q' k
  proof -
    from q [OF r] obtain q0 where "retain h l = Some q0" "k \<in> set q0 \<or> k = logSeq h'"
      using e by blast
    then show ?thesis using b(3) [of l q0 k] m by auto
  qed
  ultimately show ?thesis unfolding s s' seq_bounded_def by auto
qed

lemma seq_bounded_run:
  "seq_bounded (snd s) \<Longrightarrow> seq_bounded (snd (run fmt s cs))"
  unfolding run_def by (induction cs arbitrary: s) (simp_all add: seq_bounded_step)

lemma absent_step:
  assumes "absent k (snd s)" and "k \<le> logSeq (snd s)"
  shows "absent k (snd (step fmt s c)) \<and> k \<le> logSeq (snd (step fmt s c))"
proof -
  obtain st h where s: "s = (st, h)" by (cases s)
  obtain st' h' where s': "step fmt (st, h) c = (st', h')" by (cases "step fmt (st, h) c")
  from assms s have b: "k \<le> logSeq h" "k \<notin> set (keys (index h))"
    "\<And>l q. retain h l = Some q \<Longrightarrow> k \<notin> set q"
    by (auto simp: absent_def)
  from step_bounds [OF s'] have
    m: "logSeq h \<le> logSeq h'"
    and ks: "\<And>j. j \<in> set (keys (index h')) \<Longrightarrow> j \<in> set (keys (index h)) \<or> j = logSeq h + 1"
    and q: "\<And>l q'. retain h' l = Some q' \<Longrightarrow>
            \<exists>q. retain h l = Some q \<and> (\<forall>j \<in> set q'. j \<in> set q \<or> j = logSeq h + 1)"
    by blast+
  have "k \<notin> set (keys (index h'))" using ks [of k] b(1,2) by auto
  moreover have "k \<notin> set q'" if r: "retain h' l = Some q'" for l q'
  proof
    assume "k \<in> set q'"
    with q [OF r] obtain q0 where "retain h l = Some q0" "k \<in> set q0 \<or> k = logSeq h + 1"
      by blast
    then show False using b(1) b(3) [of l q0] by auto
  qed
  ultimately show ?thesis using m b(1) unfolding s s' absent_def by auto
qed

lemma absent_run:
  "absent k (snd s) \<Longrightarrow> k \<le> logSeq (snd s) \<Longrightarrow> absent k (snd (run fmt s cs))"
  unfolding run_def by (induction cs arbitrary: s) (simp_all add: absent_step)

lemma seq_bounded_absent: "seq_bounded h \<Longrightarrow> logSeq h < k \<Longrightarrow> absent k h"
proof -
  assume b: "seq_bounded h" and l: "logSeq h < k"
  have "k \<notin> set (keys (index h))"
    using b l unfolding seq_bounded_def by auto
  moreover have "k \<notin> set q" if "retain h l = Some q" for l q
  proof
    assume "k \<in> set q"
    with b that have "k \<le> logSeq h" unfolding seq_bounded_def by blast
    with l show False by simp
  qed
  ultimately show ?thesis unfolding absent_def by blast
qed

lemma emit_split:
  assumes "level h \<le> r_levelno r"
    and "filters h = pre @ a # post"
    and "process_filters (logSeq h + 1) r pre st (retain h (r_levelno r)) (index h)
           = (Completed, st1, lv1, ix1)"
  shows "emit fmt (st, h) r =
     (case process_filters (logSeq h + 1) r (a # post) st1 lv1 ix1 of
        (Leave, st', lv', ix') \<Rightarrow> (None, st', write_back (h\<lparr>logSeq := logSeq h + 1\<rparr>) r lv' ix')
      | (Raise e, st', lv', ix') \<Rightarrow> (Some e, st', write_back (h\<lparr>logSeq := logSeq h + 1\<rparr>) r lv' ix')
      | (Completed, st', lv', ix') \<Rightarrow>
          (case store_entry fmt (h\<lparr>logSeq := logSeq h + 1\<rparr>) r lv' ix' of (e, h2) \<Rightarrow> (e, st', h2)))"
  using assms by (simp add: emit_def Let_def process_filters_append)

subsection \<open>Agreement of index and queues\<close>













lemma store_entry_length:
  assumes "store_entry fmt h r (Some q) ix = (e, h')"
  shows "\<exists>q'. retain h' = (retain h)(r_levelno r \<mapsto> q')
          \<and> (\<forall>c. retainSetup h (r_levelno r) = Some c \<longrightarrow> int (length q) \<le> c
                \<longrightarrow> int (length q') \<le> c)"
  using assms
  by (cases q; cases "retainSetup h (r_levelno r)")
     (auto simp: store_entry_def Let_def split: if_splits)

lemma emit_within_capacity:
  assumes w: "within_capacity h" and em: "emit fmt (st, h) r = (e, st', h')"
  shows "within_capacity h'"
proof (cases "level h \<le> r_levelno r")
  case False
  with em have "h' = h" by (simp add: emit_def Let_def)
  with w show ?thesis by simp
next
  case True
  let ?L = "r_levelno r"
  define h1 where "h1 = h\<lparr>logSeq := logSeq h + 1\<rparr>"
  have rs: "retainSetup h' = retainSetup h" using emit_frame [OF em] by simp
  obtain ex st1 lv1 ix1 where
    pf: "process_filters (logSeq h + 1) r (filters h) st (retain h ?L) (index h) = (ex, st1, lv1, ix1)"
    by (metis prod_cases4)
  have upd: "retain h' = retain h
      \<or> (\<exists>q q'. retain h ?L = Some q \<and> retain h' = (retain h)(?L \<mapsto> q')
            \<and> (\<forall>c. retainSetup h ?L = Some c \<longrightarrow> int (length q) \<le> c \<longrightarrow> int (length q') \<le> c))"
  proof (cases "retain h ?L")
    case None
    with process_filters_shrinks [OF pf] have lv1: "lv1 = None" by simp
    show ?thesis
    proof (cases "ex = Completed")
      case False
      with em True pf lv1 have "h' = write_back h1 r None ix1"
        by (cases ex) (auto simp: emit_def Let_def h1_def)
      then show ?thesis by (simp add: write_back_def h1_def)
    next
      case ec: True
      with em True pf lv1 have "store_entry fmt h1 r None ix1 = (e, h')"
        by (auto simp: emit_def Let_def h1_def split: prod.splits)
      then show ?thesis by (auto simp: store_entry_def Let_def h1_def)
    qed
  next
    case (Some q)
    with process_filters_shrinks [OF pf] obtain q1 where
      q1: "lv1 = Some q1" "length q1 \<le> length q" by auto
    show ?thesis
    proof (cases "ex = Completed")
      case False
      with em True pf q1 have "h' = write_back h1 r (Some q1) ix1"
        by (cases ex) (auto simp: emit_def Let_def h1_def)
      then have "retain h' = (retain h)(?L \<mapsto> q1)" by (simp add: write_back_def h1_def)
      with Some q1(2) show ?thesis by auto
    next
      case ec: True
      with em True pf q1 have "store_entry fmt h1 r (Some q1) ix1 = (e, h')"
        by (auto simp: emit_def Let_def h1_def split: prod.splits)
      from store_entry_length [OF this] obtain q' where
        "retain h' = (retain h)(?L \<mapsto> q')"
        "\<forall>c. retainSetup h ?L = Some c \<longrightarrow> int (length q1) \<le> c \<longrightarrow> int (length q') \<le> c"
        by (auto simp: h1_def)
      with Some q1(2) show ?thesis by auto
    qed
  qed
  show ?thesis unfolding within_capacity_def rs
  proof (intro allI impI)
    fix l c assume lc: "retainSetup h l = Some c"
    with w obtain q where q: "retain h l = Some q" "0 \<le> c \<longrightarrow> int (length q) \<le> c"
      by (auto simp: within_capacity_def)
    from upd show "\<exists>q. retain h' l = Some q \<and> (0 \<le> c \<longrightarrow> int (length q) \<le> c)"
    proof
      assume "retain h' = retain h"
      with q show ?thesis by simp
    next
      assume "\<exists>q q'. retain h ?L = Some q \<and> retain h' = (retain h)(?L \<mapsto> q')
            \<and> (\<forall>c. retainSetup h ?L = Some c \<longrightarrow> int (length q) \<le> c \<longrightarrow> int (length q') \<le> c)"
      then obtain q0 q' where u: "retain h ?L = Some q0" "retain h' = (retain h)(?L \<mapsto> q')"
        "\<forall>c. retainSetup h ?L = Some c \<longrightarrow> int (length q0) \<le> c \<longrightarrow> int (length q') \<le> c"
        by blast
      show ?thesis
      proof (cases "l = ?L")
        case False
        with u(2) q show ?thesis by simp
      next
        case True
        with u q lc have "retain h' l = Some q'" "0 \<le> c \<longrightarrow> int (length q') \<le> c" by auto
        then show ?thesis by blast
      qed
    qed
  qed
qed


lemma within_capacity_init: "within_capacity (init rs lv)"
  by (auto simp: within_capacity_def init_def)

lemma step_fields:
  "retainSetup (snd (step fmt s c)) = retainSetup (snd s) \<and> level (snd (step fmt s c)) = level (snd s)"
proof (cases c)
  case (Emit r)
  obtain e st' h' where em: "emit fmt (fst s, snd s) r = (e, st', h')"
    by (metis prod_cases3)
  from emit_frame [OF em] em Emit show ?thesis by simp
next
  case (AddFilter a)
  then show ?thesis by (simp add: addFilter_def)
qed


lemma step_within_capacity:
  assumes "within_capacity (snd s)"
  shows "within_capacity (snd (step fmt s c))"
proof (cases c)
  case (Emit r)
  obtain e st' h' where em: "emit fmt (fst s, snd s) r = (e, st', h')"
    by (metis prod_cases3)
  from emit_within_capacity [OF assms em] em Emit show ?thesis by simp
next
  case (AddFilter a)
  with assms show ?thesis by (simp add: addFilter_def within_capacity_def)
qed


lemma run_within_capacity:
  "within_capacity (snd s) \<Longrightarrow> within_capacity (snd (run fmt s cs))"
  unfolding run_def by (induction cs arbitrary: s) (simp_all add: step_within_capacity)

lemma run_retainSetup: "retainSetup (snd (run fmt s cs)) = retainSetup (snd s)"
  unfolding run_def by (induction cs arbitrary: s) (simp_all add: step_fields)

section \<open>The threshold\<close>

text \<open>
  C10. A record whose level is strictly below the handler's level changes
  nothing: the call returns normally, the sequence counter keeps its value, no
  filter object is touched (the store is the same), and the index and every
  queue are as before. The test on the level comes before the increment of
  \<^verbatim>\<open>logSeq\<close>.
\<close>

theorem emit_below_minimum:
  "r_levelno r < level (snd s) \<Longrightarrow> emit fmt s r = (None, s)"
  by (simp add: emit_def Let_def)

theorem emit_below_minimum_witness:
  "emit r_name (sample_store, init [20 \<mapsto> 50] 20) \<lparr>r_name = ''app'', r_levelno = 10\<rparr>
     = (None, sample_store, init [20 \<mapsto> 50] 20)"
  using emit_below_minimum
    [of "\<lparr>r_name = ''app'', r_levelno = 10\<rparr>" "(sample_store, init [20 \<mapsto> 50] 20)" r_name]
  by (simp add: init_def)

section \<open>Construction\<close>

text \<open>
  C4, as the specification has it: a capacity of zero or below, or a level that
  is no severity of \<^verbatim>\<open>logging\<close>, makes the constructor fail. The constructor
  accepts all three.
\<close>

theorem construct_zero_capacity_accepted:
  "\<not> isl (construct [20 \<mapsto> 0] 20) \<and> \<not> isl (construct [20 \<mapsto> - 5] 20)
     \<and> \<not> isl (construct [20 \<mapsto> 50] 17)"
  by (simp add: construct_def)

text \<open>
  C4, amended: the constructor never fails. For every capacity map and every
  level it returns a handler that holds them as given, with the counter at
  zero, an empty index, no filter, and an empty queue for each key of the map.
\<close>

theorem construct_never_fails:
  "construct rs lv =
     Inr \<lparr>retainSetup = rs, level = lv, logSeq = 0, index = [],
          retain = (\<lambda>k. if rs k = None then None else Some []), filters = []\<rparr>"
  by (auto simp: construct_def init_def fun_eq_iff split: option.splits)

theorem construct_never_fails_witness:
  "construct [20 \<mapsto> 0] 17 =
     Inr \<lparr>retainSetup = [20 \<mapsto> 0], level = 17, logSeq = 0, index = [],
          retain = (\<lambda>k. if k = 20 then Some [] else None), filters = []\<rparr>"
  using construct_never_fails [of "[20 \<mapsto> 0]" 17]
  by (simp add: fun_eq_iff)

section \<open>A level without a capacity\<close>

text \<open>
  C1. The handler is built with a capacity for level 20 only and admits level
  20 and above. A record of level 30 is then stored in the index under the
  number 1, and the call ends with \<^verbatim>\<open>TypeError\<close> at \<^verbatim>\<open>len(lvlRecs)\<close>: the entry
  stays in the index and is what \<^verbatim>\<open>getLogEntries\<close> yields afterwards.
\<close>

theorem emit_unconfigured_level_raises:
  "emit fmt (st, init [20 \<mapsto> 50] 20) \<lparr>r_name = n, r_levelno = 30\<rparr>
     = (Some TypeError, st,
        (init [20 \<mapsto> 50] 20)\<lparr>logSeq := 1, index := [(1, fmt \<lparr>r_name = n, r_levelno = 30\<rparr>)]\<rparr>)"
  by (simp add: emit_def init_def store_entry_def Let_def)

section \<open>Chronological order across two levels\<close>

text \<open>
  C3. No filter is registered; the levels \<open>A\<close> and \<open>B\<close> are different, both have
  capacity 2 and both are admitted. After the records \<open>a1\<close>, \<open>b1\<close>, \<open>a2\<close>, \<open>b2\<close>,
  \<open>a3\<close> (of level \<open>A\<close>, \<open>B\<close>, \<open>A\<close>, \<open>B\<close>, \<open>A\<close>) no call has raised, the queue of
  \<open>A\<close> holds the numbers 3 and 5 (of \<open>a2\<close> and \<open>a3\<close>), the queue of \<open>B\<close> the
  numbers 2 and 4 (of \<open>b1\<close> and \<open>b2\<close>), and \<^verbatim>\<open>getLogEntries\<close> yields the four
  retained records by ascending number: \<open>b1\<close>, \<open>a2\<close>, \<open>b2\<close>, \<open>a3\<close>.
\<close>

theorem chronological_order_two_levels:
  assumes "rs A = Some 2" and "rs B = Some 2" and "A \<noteq> B" and "lv \<le> A" and "lv \<le> B"
    and "r_levelno a1 = A" and "r_levelno a2 = A" and "r_levelno a3 = A"
    and "r_levelno b1 = B" and "r_levelno b2 = B"
    and "cs = [Emit a1, Emit b1, Emit a2, Emit b2, Emit a3]"
    and "h = snd (run fmt (st, init rs lv) cs)"
  shows "trace fmt (st, init rs lv) cs = [None, None, None, None, None]
         \<and> retain h A = Some [3, 5] \<and> retain h B = Some [2, 4]
         \<and> getLogEntries h = [(2, fmt b1), (3, fmt a2), (4, fmt b2), (5, fmt a3)]"
  using assms
  by (simp add: run_def emit_def init_def store_entry_def Let_def keys_def getLogEntries_def)

theorem chronological_order_two_levels_witness:
  "trace r_name (sample_store, init [20 \<mapsto> 2, 30 \<mapsto> 2] 20)
      [Emit \<lparr>r_name = ''A1'', r_levelno = 20\<rparr>, Emit \<lparr>r_name = ''B1'', r_levelno = 30\<rparr>,
       Emit \<lparr>r_name = ''A2'', r_levelno = 20\<rparr>, Emit \<lparr>r_name = ''B2'', r_levelno = 30\<rparr>,
       Emit \<lparr>r_name = ''A3'', r_levelno = 20\<rparr>] = [None, None, None, None, None]
   \<and> getLogEntries (snd (run r_name (sample_store, init [20 \<mapsto> 2, 30 \<mapsto> 2] 20)
      [Emit \<lparr>r_name = ''A1'', r_levelno = 20\<rparr>, Emit \<lparr>r_name = ''B1'', r_levelno = 30\<rparr>,
       Emit \<lparr>r_name = ''A2'', r_levelno = 20\<rparr>, Emit \<lparr>r_name = ''B2'', r_levelno = 30\<rparr>,
       Emit \<lparr>r_name = ''A3'', r_levelno = 20\<rparr>]))
     = [(2, ''B1''), (3, ''A2''), (4, ''B2''), (5, ''A3'')]"
  using chronological_order_two_levels [of "[20 \<mapsto> 2, 30 \<mapsto> 2]" 20 30 20
      "\<lparr>r_name = ''A1'', r_levelno = 20\<rparr>" "\<lparr>r_name = ''A2'', r_levelno = 20\<rparr>"
      "\<lparr>r_name = ''A3'', r_levelno = 20\<rparr>" "\<lparr>r_name = ''B1'', r_levelno = 30\<rparr>"
      "\<lparr>r_name = ''B2'', r_levelno = 30\<rparr>" _ _ r_name sample_store, OF _ _ _ _ _ _ _ _ _ _ refl refl]
  by simp

section \<open>The retaining filter\<close>

text \<open>
  C8, as the specification has it: on a matching record the filter returns its
  oldest number whenever its list holds at least \<^verbatim>\<open>count\<close> entries, and appends
  the new number in either case. With a \<^verbatim>\<open>count\<close> of zero and an empty list the
  test \<^verbatim>\<open>len(self._index) >= self.count\<close> holds, \<^verbatim>\<open>pop(0)\<close> raises \<^verbatim>\<open>IndexError\<close>,
  nothing is returned and nothing is appended.
\<close>

theorem retain_filter_zero_count_raises:
  "call_filter (LogRetainFilter_init LogRetainFilter ''X'' 20 0) 1 rec_X
     = (Inl IndexError, LogRetainFilter_init LogRetainFilter ''X'' 20 0)"
  by (simp add: call_filter_def LogRetainFilter_filter_def LogRetainFilter_init_def matches_def
      rec_X_def)

text \<open>
  C8, amended. \<^verbatim>\<open>LogRetainFilter.filter\<close> returns nothing on a record that does
  not match and leaves its list as it is. On a matching record it returns
  nothing when the list holds fewer than \<^verbatim>\<open>count\<close> entries, and the oldest number
  when the list holds at least \<^verbatim>\<open>count\<close> entries and is not empty (which it
  is for every \<^verbatim>\<open>count\<close> of one or more); in both cases the new number is
  appended after the test, the oldest one having been removed in the second.
  Consequently, with a filter of \<^verbatim>\<open>count\<close> 1 on a key, registered alone on a new
  handler whose level \<open>L\<close> has a capacity above 1, three matching records leave
  only the third in the queue and in the index, and no call raises.
\<close>

theorem retain_filter_evaluate:
  assumes "f_class f = LogRetainFilter"
  shows "(\<not> matches f r \<longrightarrow> call_filter f seq r = (Inr None, f))
    \<and> (matches f r \<and> int (length (f_index f)) < f_count f \<longrightarrow>
         call_filter f seq r = (Inr None, f\<lparr>f_index := f_index f @ [seq]\<rparr>))
    \<and> (matches f r \<and> f_count f \<le> int (length (f_index f)) \<and> f_index f \<noteq> [] \<longrightarrow>
         call_filter f seq r
           = (Inr (Some (hd (f_index f))), f\<lparr>f_index := tl (f_index f) @ [seq]\<rparr>))
    \<and> (rs L = Some c \<and> 1 < c \<and> lv \<le> L
         \<and> st a = LogRetainFilter_init LogRetainFilter n L 1
         \<and> r_name x1 = n \<and> r_name x2 = n \<and> r_name x3 = n
         \<and> r_levelno x1 = L \<and> r_levelno x2 = L \<and> r_levelno x3 = L \<longrightarrow>
         trace fmt (st, init rs lv) [AddFilter a, Emit x1, Emit x2, Emit x3] = [None, None, None, None]
         \<and> retain (snd (run fmt (st, init rs lv) [AddFilter a, Emit x1, Emit x2, Emit x3])) L = Some [3]
         \<and> getLogEntries (snd (run fmt (st, init rs lv) [AddFilter a, Emit x1, Emit x2, Emit x3]))
             = [(3, fmt x3)])"
  using assms
  by (auto simp: call_filter_def LogRetainFilter_filter_def neq_Nil_conv process_filters_Cons
      run_def emit_def init_def store_entry_def Let_def keys_def getLogEntries_def addFilter_def
      LogRetainFilter_init_def matches_def)

theorem retain_filter_evaluate_witness:
  "call_filter (sample_store 0) 7 rec_Y = (Inr None, sample_store 0)
   \<and> call_filter (sample_store 0) 7 rec_X = (Inr None, (sample_store 0)\<lparr>f_index := [7]\<rparr>)
   \<and> call_filter ((sample_store 0)\<lparr>f_index := [7]\<rparr>) 8 rec_X
       = (Inr (Some 7), (sample_store 0)\<lparr>f_index := [8]\<rparr>)
   \<and> getLogEntries (snd (run r_name (sample_store, init [20 \<mapsto> 5] 20)
        [AddFilter 0, Emit rec_X, Emit rec_X, Emit rec_X])) = [(3, ''X'')]"
  using retain_filter_evaluate [where f = "sample_store 0" and r = rec_Y and seq = 7]
    retain_filter_evaluate [where f = "sample_store 0" and r = rec_X and seq = 7
      and rs = "[20 \<mapsto> 5]" and L = 20 and c = 5 and lv = 20 and st = sample_store and a = 0
      and n = "''X''" and ?x1.0 = rec_X and ?x2.0 = rec_X and ?x3.0 = rec_X and fmt = r_name]
    retain_filter_evaluate [where f = "(sample_store 0)\<lparr>f_index := [7]\<rparr>" and r = rec_X and seq = 8]
  by (simp add: sample_store_def rec_X_def rec_Y_def LogRetainFilter_init_def matches_def)

section \<open>An eviction target that is not retained\<close>




section \<open>Suppression\<close>

text \<open>
  C7. The handler is in a state it can reach from construction, the record is
  admitted by the level, a suppressing filter with the record's name and level
  is registered, and no filter registered before it matches the record. Then
  the call returns normally and changes nothing but the counter: the store is
  the same, so no filter registered after the suppressing one was called (a
  matching retaining filter would have grown its list), the queues are the
  same, so nothing was evicted, \<^verbatim>\<open>getLogEntries\<close> and \<^verbatim>\<open>get\<close> yield what
  they yielded before, and whatever calls follow, the record's number is never
  a key of the index nor in any queue.
\<close>

theorem suppress_filter_discards:
  assumes "(st, h) = run fmt (st0, init rs lv) cs0"
    and "level h \<le> r_levelno r"
    and "filters h = pre @ a # post"
    and "f_class (st a) = LogRetainSuppress" and "matches (st a) r"
    and "\<forall>b \<in> set pre. \<not> matches (st b) r"
  shows "emit fmt (st, h) r = (None, st, h\<lparr>logSeq := logSeq h + 1\<rparr>)
       \<and> getLogEntries (h\<lparr>logSeq := logSeq h + 1\<rparr>) = getLogEntries h
       \<and> get mem_alloc mem_free (h\<lparr>logSeq := logSeq h + 1\<rparr>) = get mem_alloc mem_free h
       \<and> retain (h\<lparr>logSeq := logSeq h + 1\<rparr>) = retain h
       \<and> (\<forall>cs. absent (logSeq h + 1) (snd (run fmt (st, h\<lparr>logSeq := logSeq h + 1\<rparr>) cs)))"
proof -
  have sb: "seq_bounded h"
    using seq_bounded_run [of "(st0, init rs lv)" fmt cs0] seq_bounded_init [of rs lv] assms(1) [symmetric]
    by simp
  then have nz: "logSeq h + 1 \<noteq> 0" by (simp add: seq_bounded_def)
  have pre: "process_filters (logSeq h + 1) r pre st (retain h (r_levelno r)) (index h)
           = (Completed, st, retain h (r_levelno r), index h)"
    using assms(6) by (rule process_filters_no_match)
  have "emit fmt (st, h) r = (None, st, h\<lparr>logSeq := logSeq h + 1\<rparr>)"
    using nz call_filter_suppress [OF assms(4,5)]
    by (cases "retain h (r_levelno r)")
       (simp_all add: emit_split [OF assms(2,3) pre] process_filters_Cons write_back_def
          map_upd_triv)
  moreover have "absent (logSeq h + 1) (snd (run fmt (st, h\<lparr>logSeq := logSeq h + 1\<rparr>) cs))" for cs
  proof (rule absent_run)
    have "absent (logSeq h + 1) h" using sb by (rule seq_bounded_absent) simp
    then show "absent (logSeq h + 1) (snd (st, h\<lparr>logSeq := logSeq h + 1\<rparr>))"
      by (simp add: absent_def)
    show "logSeq h + 1 \<le> logSeq (snd (st, h\<lparr>logSeq := logSeq h + 1\<rparr>))" by simp
  qed
  ultimately show ?thesis by (simp add: getLogEntries_def get_def)
qed

theorem suppress_filter_discards_witness:
  "emit r_name (sample_store, snd (run r_name (sample_store, init [30 \<mapsto> 5] 20) [AddFilter 0, AddFilter 1, AddFilter 2])) rec_Y
   = (None, sample_store,
      (snd (run r_name (sample_store, init [30 \<mapsto> 5] 20) [AddFilter 0, AddFilter 1, AddFilter 2]))\<lparr>logSeq := 1\<rparr>)"
  using suppress_filter_discards [where st = sample_store
      and h = "snd (run r_name (sample_store, init [30 \<mapsto> 5] 20) [AddFilter 0, AddFilter 1, AddFilter 2])"
      and fmt = r_name and ?st0.0 = sample_store and rs = "[30 \<mapsto> 5]" and lv = 20
      and ?cs0.0 = "[AddFilter 0, AddFilter 1, AddFilter 2]" and r = rec_Y
      and pre = "[0]" and a = 1 and post = "[2]"]
  by (simp add: run_def addFilter_def init_def rec_Y_def sample_store_def LogRetainFilter_init_def
      matches_def)

text \<open>
  C9. The handler is in a state it can reach from construction and the loop
  over the filters left through \<^verbatim>\<open>return\<close>. Then the list of filters splits at
  the filter that returned the record's own number: the filters before it
  were all called, the call of \<^verbatim>\<open>emit\<close> returns normally, every retaining
  filter before it that matches the record has the record's number in its
  list, and that number is no key of the index and in no queue.
\<close>

theorem suppressed_record_kept_by_earlier_filters:
  assumes "(st, h) = run fmt (st0, init rs lv) cs0"
    and "level h \<le> r_levelno r"
    and "process_filters (logSeq h + 1) r (filters h) st (retain h (r_levelno r)) (index h)
           = (Leave, st', lv', ix')"
  shows "\<exists>pre a post st1 h'. filters h = pre @ a # post
      \<and> process_filters (logSeq h + 1) r pre st (retain h (r_levelno r)) (index h)
          = (Completed, st1, lv', ix')
      \<and> fst (call_filter (st1 a) (logSeq h + 1) r) = Inr (Some (logSeq h + 1))
      \<and> emit fmt (st, h) r = (None, st', h')
      \<and> (\<forall>b \<in> set pre. f_class (st b) = LogRetainFilter \<and> matches (st b) r
            \<longrightarrow> logSeq h + 1 \<in> set (f_index (st' b)))
      \<and> absent (logSeq h + 1) h'"
proof -
  let ?seq = "logSeq h + 1"
  let ?h' = "write_back (h\<lparr>logSeq := ?seq\<rparr>) r lv' ix'"
  have sb: "seq_bounded h"
    using seq_bounded_run [of "(st0, init rs lv)" fmt cs0] seq_bounded_init [of rs lv] assms(1) [symmetric]
    by simp
  from process_filters_Leave [OF assms(3)] obtain pre a post st1 where
    d: "filters h = pre @ a # post"
      "process_filters ?seq r pre st (retain h (r_levelno r)) (index h) = (Completed, st1, lv', ix')"
      "call_filter (st1 a) ?seq r = (Inr (Some ?seq), st' a)"
      "st' = st1(a := st' a)"
    by blast
  have em: "emit fmt (st, h) r = (None, st', ?h')"
    using assms(2,3) by (simp add: emit_def Let_def)
  have fifo: "?seq \<in> set (f_index (st' b))"
    if b: "b \<in> set pre" and c: "f_class (st b) = LogRetainFilter" and m: "matches (st b) r" for b
  proof -
    have in1: "?seq \<in> set (f_index (st1 b))"
      using process_filters_adds [OF d(2) b c m] .
    show ?thesis
    proof (cases "b = a")
      case True
      from call_filter_keeps [OF d(3)] in1 True show ?thesis by simp
    next
      case False
      with d(4) have "st' b = st1 b" by (metis fun_upd_other)
      with in1 show ?thesis by simp
    qed
  qed
  have ab: "absent ?seq ?h'"
  proof -
    have a0: "absent ?seq h" using sb by (rule seq_bounded_absent) simp
    from process_filters_shrinks [OF assms(3)] have
      k: "set (keys ix') \<subseteq> set (keys (index h))"
      and q: "case retain h (r_levelno r) of None \<Rightarrow> lv' = None
              | Some q \<Rightarrow> (\<exists>q'. lv' = Some q' \<and> set q' \<subseteq> set q \<and> length q' \<le> length q)"
      by blast+
    show ?thesis
    proof (cases "retain h (r_levelno r)")
      case None
      with q a0 k show ?thesis by (auto simp: absent_def write_back_def)
    next
      case (Some q0)
      with q obtain q' where "lv' = Some q'" "set q' \<subseteq> set q0" by auto
      with a0 k Some show ?thesis by (auto simp: absent_def write_back_def)
    qed
  qed
  from d(1,2,3) em fifo ab show ?thesis by (intro exI [of _ pre] exI [of _ a] exI [of _ post] exI [of _ st1] exI [of _ ?h']) simp
qed

theorem suppressed_record_kept_by_earlier_filters_witness:
  "\<exists>pre a post st1 h'.
      filters (snd (run r_name (sample_store, init [20 \<mapsto> 5] 20) [AddFilter 0, AddFilter 3])) = pre @ a # post
      \<and> process_filters 1 rec_X pre sample_store (Some []) []
          = (Completed, st1, Some [], [])
      \<and> fst (call_filter (st1 a) 1 rec_X) = Inr (Some 1)
      \<and> emit r_name (sample_store, snd (run r_name (sample_store, init [20 \<mapsto> 5] 20) [AddFilter 0, AddFilter 3])) rec_X
          = (None, sample_store(0 := (sample_store 0)\<lparr>f_index := [1]\<rparr>), h')
      \<and> (\<forall>b \<in> set pre. f_class (sample_store b) = LogRetainFilter \<and> matches (sample_store b) rec_X
            \<longrightarrow> 1 \<in> set (f_index ((sample_store(0 := (sample_store 0)\<lparr>f_index := [1]\<rparr>)) b)))
      \<and> absent 1 h'"
proof -
  have run: "run r_name (sample_store, init [20 \<mapsto> 5] 20) [AddFilter 0, AddFilter 3]
      = (sample_store, (init [20 \<mapsto> 5] 20)\<lparr>filters := [0, 3]\<rparr>)"
    by (simp add: run_def addFilter_def init_def)
  have loop: "process_filters 1 rec_X [0, 3] sample_store (Some []) []
      = (Leave, sample_store(0 := (sample_store 0)\<lparr>f_index := [1]\<rparr>), Some [], [])"
    by (simp add: process_filters_Cons rec_X_def sample_store_def LogRetainFilter_init_def call_filter_def
        LogRetainFilter_filter_def LogRetainSuppress_filter_def matches_def fun_eq_iff)
  show ?thesis
    using suppressed_record_kept_by_earlier_filters [where st = sample_store
      and h = "(init [20 \<mapsto> 5] 20)\<lparr>filters := [0, 3]\<rparr>"
      and fmt = r_name and ?st0.0 = sample_store and rs = "[20 \<mapsto> 5]" and lv = 20
      and ?cs0.0 = "[AddFilter 0, AddFilter 3]" and r = rec_X
      and st' = "sample_store(0 := (sample_store 0)\<lparr>f_index := [1]\<rparr>)" and lv' = "Some []" and ix' = "[]"]
      run loop
    by (simp add: init_def rec_X_def)
qed

section \<open>The capacity of a queue\<close>

text \<open>
  C6. If the capacity map gives level \<open>L\<close> a capacity \<open>C\<close> of at least one, then
  after any calls on a new handler, whatever the records, the filters and the
  exceptions, level \<open>L\<close> has a queue and it holds at most \<open>C\<close> numbers.
\<close>

theorem capacity_invariant:
  assumes "rs L = Some C" and "1 \<le> C"
    and "h = snd (run fmt (st, init rs lv) cs)"
  shows "\<exists>q. retain h L = Some q \<and> int (length q) \<le> C"
proof -
  have "within_capacity h"
    unfolding assms(3) by (rule run_within_capacity) (simp add: within_capacity_init)
  moreover have "retainSetup h = rs"
    unfolding assms(3) by (simp add: run_retainSetup init_def)
  ultimately obtain q where "retain h L = Some q" "0 \<le> C \<longrightarrow> int (length q) \<le> C"
    using assms(1) unfolding within_capacity_def by blast
  with assms(2) show ?thesis by auto
qed

theorem capacity_invariant_witness:
  "\<exists>q. retain (snd (run r_name (sample_store, init [20 \<mapsto> 2, 30 \<mapsto> 1] 20)
          [Emit rec_X, Emit rec_X, Emit rec_X, Emit rec_Y])) 20 = Some q \<and> int (length q) \<le> 2"
  using capacity_invariant [of "[20 \<mapsto> 2, 30 \<mapsto> 1]" 20 2 _ r_name sample_store 20
      "[Emit rec_X, Emit rec_X, Emit rec_X, Emit rec_Y]", OF _ _ refl]
  by simp

section \<open>The index and the queues\<close>




end
